theory Spec2Isabelle
  imports Main "HOL-Library.Word" "HOL-Library.Sublist"
begin

section \<open>JavaScript strings\<close>

text \<open>
  A JavaScript string is a sequence of UTF-16 code units; \<open>length\<close>, \<open>substring\<close>,
  \<open>trim\<close> and the regular expressions of the source all count and classify code units.
  String literals of the source are ASCII and are written with \<open>js\<close>.
\<close>

type_synonym jschar = "16 word"
type_synonym jsstring = "jschar list"

definition js :: "string \<Rightarrow> jsstring" where
  "js s = map of_char s"

text \<open>ECMAScript \<open>LineTerminator\<close>: LF, CR, LS, PS. The regex atom \<open>.\<close> matches
  every code unit but these.\<close>

definition isLineTerminator :: "jschar \<Rightarrow> bool" where
  "isLineTerminator c \<longleftrightarrow> c = 0x0A \<or> c = 0x0D \<or> c = 0x2028 \<or> c = 0x2029"

text \<open>ECMAScript \<open>WhiteSpace\<close> and \<open>LineTerminator\<close>: what \<open>String.prototype.trim\<close>
  strips and what the regex class \<open>\s\<close> matches.\<close>

definition isWhiteSpace :: "jschar \<Rightarrow> bool" where
  "isWhiteSpace c \<longleftrightarrow>
     c = 0x09 \<or> c = 0x0B \<or> c = 0x0C \<or> c = 0x20 \<or> c = 0xA0 \<or> c = 0x1680 \<or>
     (0x2000 \<le> c \<and> c \<le> 0x200A) \<or> c = 0x202F \<or> c = 0x205F \<or> c = 0x3000 \<or>
     c = 0xFEFF \<or> isLineTerminator c"

definition trim :: "jsstring \<Rightarrow> jsstring" where
  "trim s = rev (dropWhile isWhiteSpace (rev (dropWhile isWhiteSpace s)))"

text \<open>\<open>s.substring(a, b)\<close>: both indices are clamped to the length and swapped when
  \<open>a > b\<close>.\<close>

definition substring :: "jsstring \<Rightarrow> nat \<Rightarrow> nat \<Rightarrow> jsstring" where
  "substring s a b =
     (let a' = min a (length s); b' = min b (length s);
          lo = min a' b'; hi = max a' b'
      in take (hi - lo) (drop lo s))"

text \<open>\<open>s.includes(pat)\<close>.\<close>

fun includes_js :: "jsstring \<Rightarrow> jsstring \<Rightarrow> bool" where
  "includes_js [] pat = (pat = [])"
| "includes_js (c # cs) pat = (prefix pat (c # cs) \<or> includes_js cs pat)"

section \<open>Text segmentation decoder (DocumentViewer.tsx, formatTextWithSections)\<close>

text \<open>The JSX elements the function returns are an \<open>h3\<close> holding a section name and a
  \<open>div\<close> holding text; only these two kinds occur.\<close>

datatype segment = Heading jsstring | Paragraph jsstring

fun segment_text :: "segment \<Rightarrow> jsstring" where
  "segment_text (Heading t) = t"
| "segment_text (Paragraph t) = t"

definition SECTION_START :: jsstring where
  "SECTION_START = js ''##SECTION_START##''"

definition SECTION_END :: jsstring where
  "SECTION_END = js ''##SECTION_END##''"

record section_marker =
  name :: jsstring
  startIndex :: nat
  endIndex :: nat

text \<open>
  The pattern \<open>/##SECTION_START##(.*?)##SECTION_END##/g\<close>.
  \<open>lazy_capture cs\<close> matches \<open>(.*?)##SECTION_END##\<close> at the head of \<open>cs\<close>: the lazy
  quantifier tries the closing literal first and only then lets \<open>.\<close> take one more code
  unit, which must not be a line terminator. The result is the captured group and the
  number of code units matched.
\<close>

fun lazy_capture :: "jsstring \<Rightarrow> (jsstring \<times> nat) option" where
  "lazy_capture [] = (if prefix SECTION_END [] then Some ([], length SECTION_END) else None)"
| "lazy_capture (c # cs) =
     (if prefix SECTION_END (c # cs) then Some ([], length SECTION_END)
      else if isLineTerminator c then None
      else (case lazy_capture cs of
              None \<Rightarrow> None
            | Some (cap, n) \<Rightarrow> Some (c # cap, Suc n)))"

definition match_here :: "jsstring \<Rightarrow> (jsstring \<times> nat) option" where
  "match_here cs =
     (if prefix SECTION_START cs
      then (case lazy_capture (drop (length SECTION_START) cs) of
              None \<Rightarrow> None
            | Some (cap, n) \<Rightarrow> Some (cap, length SECTION_START + n))
      else None)"

text \<open>\<open>sectionPattern.exec(text)\<close> with \<open>lastIndex = i\<close>: the leftmost match starting at
  an index from \<open>i\<close> on, as (\<open>match.index\<close>, \<open>match[1]\<close>, new \<open>lastIndex\<close>); \<open>None\<close> is
  \<open>null\<close>.\<close>

function exec :: "jsstring \<Rightarrow> nat \<Rightarrow> (nat \<times> jsstring \<times> nat) option" where
  "exec text i =
     (if length text < i then None
      else (case match_here (drop i text) of
              Some (cap, n) \<Rightarrow> Some (i, cap, i + n)
            | None \<Rightarrow> exec text (Suc i)))"
  by pat_completeness auto
termination
  by (relation "measure (\<lambda>(text, i). Suc (length text) - i)") auto

declare exec.simps [simp del]

lemma lazy_capture_bounds:
  "lazy_capture cs = Some (cap, n) \<Longrightarrow> n \<le> length cs \<and> n = length cap + length SECTION_END"
proof (induction cs arbitrary: cap n)
  case Nil
  then show ?case by (auto split: if_splits)
next
  case (Cons c cs)
  then show ?case
    by (auto split: if_splits option.splits dest: prefix_length_le)
qed

lemma SECTION_START_length: "length SECTION_START = 17"
  by (simp add: SECTION_START_def js_def)

lemma SECTION_END_length: "length SECTION_END = 15"
  by (simp add: SECTION_END_def js_def)

lemma match_here_bounds:
  assumes "match_here cs = Some (cap, n)"
  shows "n \<le> length cs" and "n = 32 + length cap" and "prefix SECTION_START cs"
proof -
  from assms have p: "prefix SECTION_START cs"
    by (auto simp: match_here_def split: if_splits)
  then have l: "17 \<le> length cs"
    using prefix_length_le SECTION_START_length by fastforce
  from assms p obtain m where
    m: "lazy_capture (drop 17 cs) = Some (cap, m)" and n: "n = 17 + m"
    by (auto simp: match_here_def SECTION_START_length split: option.splits)
  from lazy_capture_bounds [OF m] l n
  show "n \<le> length cs" and "n = 32 + length cap"
    by (auto simp: SECTION_END_length)
  show "prefix SECTION_START cs" by (rule p)
qed

lemma exec_bounds:
  "exec body i = Some (idx, cap, e) \<Longrightarrow>
     i \<le> idx \<and> e = idx + 32 + length cap \<and> e \<le> length body
     \<and> match_here (drop idx body) = Some (cap, e - idx)"
proof (induction body i rule: exec.induct)
  case (1 body i)
  show ?case
  proof (cases "length body < i")
    case True
    with "1.prems" show ?thesis by (simp add: exec.simps)
  next
    case False
    show ?thesis
    proof (cases "match_here (drop i body)")
      case None
      with False "1.prems" have "exec body (Suc i) = Some (idx, cap, e)"
        by (simp add: exec.simps [of body i])
      with "1.IH" False None show ?thesis by fastforce
    next
      case (Some r)
      obtain cap' n where r: "r = (cap', n)" by (cases r)
      with False Some "1.prems" have eq: "idx = i" "cap' = cap" "e = i + n"
        by (simp_all add: exec.simps [of body i])
      from match_here_bounds(1,2) [of "drop i body" cap n] Some r eq False
      show ?thesis by auto
    qed
  qed
qed

text \<open>First pass: the \<open>while\<close> loop that calls \<open>exec\<close> until it returns \<open>null\<close>,
  threading \<open>lastIndex\<close>.\<close>

function first_pass :: "jsstring \<Rightarrow> nat \<Rightarrow> section_marker list" where
  "first_pass text lastIndex =
     (case exec text lastIndex of
        None \<Rightarrow> []
      | Some (idx, cap, e) \<Rightarrow>
          \<lparr>name = trim cap, startIndex = idx, endIndex = e\<rparr> # first_pass text e)"
  by pat_completeness auto
termination
  by (relation "measure (\<lambda>(text, i). Suc (length text) - i)") (auto dest!: exec_bounds)

declare first_pass.simps [simp del]

text \<open>Second pass: the \<open>for\<close> loop over the section indices, pushing onto \<open>parts\<close>.
  \<open>sections[i + 1]\<close> is \<open>undefined\<close> past the end, which selects \<open>text.length\<close>.\<close>

function second_pass :: "jsstring \<Rightarrow> section_marker list \<Rightarrow> nat \<Rightarrow> segment list \<Rightarrow> segment list" where
  "second_pass text sections i parts =
     (if i < length sections then
        (let section = sections ! i;
             parts1 = (if name section \<noteq> [] then parts @ [Heading (name section)] else parts);
             contentStart = endIndex section;
             contentEnd = (if Suc i < length sections then startIndex (sections ! Suc i)
                           else length text);
             content = trim (substring text contentStart contentEnd);
             parts2 = (if content \<noteq> [] then parts1 @ [Paragraph content] else parts1)
         in second_pass text sections (Suc i) parts2)
      else parts)"
  by pat_completeness auto
termination
  by (relation "measure (\<lambda>(text, sections, i, parts). length sections - i)") auto

declare second_pass.simps [simp del]

text \<open>The argument is \<open>string | undefined\<close>; \<open>None\<close> is \<open>undefined\<close>. \<open>!text\<close> holds
  for \<open>undefined\<close> and for the empty string.\<close>

definition formatTextWithSections :: "jsstring option \<Rightarrow> segment list" where
  "formatTextWithSections t =
     (case t of
        None \<Rightarrow> []
      | Some text \<Rightarrow>
          if text = [] then []
          else if \<not> includes_js text SECTION_START then [Paragraph text]
          else
            (let sections = first_pass text 0;
                 parts = second_pass text sections 0 [];
                 parts' =
                   (if 0 < length sections \<and> 0 < startIndex (sections ! 0) then
                      (let textBefore = trim (substring text 0 (startIndex (sections ! 0)))
                       in if textBefore \<noteq> [] then Paragraph textBefore # parts else parts)
                    else parts)
             in if 0 < length parts' then parts' else [Paragraph text]))"

section \<open>Abstract formatter (DocumentViewer.tsx, formatAbstract)\<close>

text \<open>The regex class \<open>\w\<close>, which decides the word boundaries \<open>\b\<close>:
  \<open>[A-Za-z0-9_]\<close>.\<close>

definition isWordChar :: "jschar \<Rightarrow> bool" where
  "isWordChar c \<longleftrightarrow>
     (0x41 \<le> c \<and> c \<le> 0x5A) \<or> (0x61 \<le> c \<and> c \<le> 0x7A) \<or> (0x30 \<le> c \<and> c \<le> 0x39) \<or> c = 0x5F"

text \<open>\<open>\b\<close> between two neighbouring positions; \<open>None\<close> is the outside of the
  string, which counts as a non-word character.\<close>

definition word_boundary :: "jschar option \<Rightarrow> jschar option \<Rightarrow> bool" where
  "word_boundary a b \<longleftrightarrow>
     (case a of None \<Rightarrow> False | Some c \<Rightarrow> isWordChar c)
       \<noteq> (case b of None \<Rightarrow> False | Some c \<Rightarrow> isWordChar c)"

text \<open>
  A pattern character under the flag \<open>i\<close> (without \<open>u\<close>): two code units match when
  their canonical forms (the upper-case mapping) agree, and a code unit from 128 on is
  never canonicalised to an ASCII one. The pattern characters here are lower-case ASCII
  letters, which therefore match themselves and their upper-case ASCII letter only.
\<close>

definition ci_match :: "jschar \<Rightarrow> jschar \<Rightarrow> bool" where
  "ci_match p c \<longleftrightarrow> c = p \<or> (0x61 \<le> p \<and> p \<le> 0x7A \<and> c = p - 0x20)"

fun literal_ci :: "jsstring \<Rightarrow> jsstring \<Rightarrow> bool" where
  "literal_ci [] cs = True"
| "literal_ci (p # ps) [] = False"
| "literal_ci (p # ps) (c # cs) = (ci_match p c \<and> literal_ci ps cs)"

definition KEYWORDS :: "jsstring list" where
  "KEYWORDS = [js ''background'', js ''methods'', js ''results'', js ''conclusion'',
               js ''introduction'']"

text \<open>The alternatives of \<open>(background|methods|results|conclusion|introduction)\b\<close> are
  tried in their order at the head of \<open>cs\<close>; the result is the length of the match.
  Every alternative is a non-empty word, so the code unit before the closing \<open>\b\<close> is
  the last one matched.\<close>

fun first_keyword :: "jsstring list \<Rightarrow> jsstring \<Rightarrow> nat option" where
  "first_keyword [] cs = None"
| "first_keyword (k # ks) cs =
     (if k \<noteq> [] \<and> literal_ci k cs
         \<and> word_boundary (Some (cs ! (length k - 1)))
              (if length k < length cs then Some (cs ! length k) else None)
      then Some (length k)
      else first_keyword ks cs)"

text \<open>The whole pattern at the head of \<open>cs\<close>, where \<open>prev\<close> is the code unit before
  it.\<close>

definition keyword_here :: "jschar option \<Rightarrow> jsstring \<Rightarrow> nat option" where
  "keyword_here prev cs =
     (if word_boundary prev (case cs of [] \<Rightarrow> None | c # _ \<Rightarrow> Some c)
      then first_keyword KEYWORDS cs else None)"

lemma literal_ci_length: "literal_ci k cs \<Longrightarrow> length k \<le> length cs"
  by (induction k cs rule: literal_ci.induct) auto

lemma first_keyword_bounds:
  "first_keyword ks cs = Some n \<Longrightarrow> 0 < n \<and> n \<le> length cs"
  by (induction ks) (auto split: if_splits dest: literal_ci_length)

lemma keyword_here_bounds:
  "keyword_here prev cs = Some n \<Longrightarrow> 0 < n \<and> n \<le> length cs"
  by (auto simp: keyword_here_def split: if_splits dest: first_keyword_bounds)

text \<open>\<open>.replace(/\b(background|...)\b/gi, '\n\n$1')\<close>: every match, found from left
  to right, is replaced by two line feeds and the matched text itself.\<close>

function replace_keywords :: "jschar option \<Rightarrow> jsstring \<Rightarrow> jsstring" where
  "replace_keywords prev cs =
     (case keyword_here prev cs of
        Some n \<Rightarrow>
          [0x0A, 0x0A] @ take n cs @ replace_keywords (Some (cs ! (n - 1))) (drop n cs)
      | None \<Rightarrow>
          (case cs of
             [] \<Rightarrow> []
           | c # cs' \<Rightarrow> c # replace_keywords (Some c) cs'))"
  by pat_completeness auto
termination
  by (relation "measure (\<lambda>(prev, cs). length cs)") (auto dest!: keyword_here_bounds)

declare replace_keywords.simps [simp del]

text \<open>\<open>.replace(/\s+/g, ' ')\<close>: every maximal run of white space becomes one space.\<close>

function collapse_ws :: "jsstring \<Rightarrow> jsstring" where
  "collapse_ws [] = []"
| "collapse_ws (c # cs) =
     (if isWhiteSpace c then 0x20 # collapse_ws (dropWhile isWhiteSpace cs)
      else c # collapse_ws cs)"
  by pat_completeness auto
termination
  by (relation "measure length") (auto simp: le_imp_less_Suc length_dropWhile_le)

definition formatAbstract :: "jsstring option \<Rightarrow> jsstring" where
  "formatAbstract a =
     (case a of
        None \<Rightarrow> []
      | Some abstract \<Rightarrow>
          if abstract = [] then []
          else trim (collapse_ws (replace_keywords None abstract)))"

section \<open>Search and document session (App.tsx)\<close>

text \<open>
  The component state of \<open>App\<close>, one field per \<open>useState\<close>. The controller stores
  result items and documents without looking inside them, so their types are
  parameters. \<open>alerts\<close> is the log of the \<open>alert\<close> calls, the only user-visible effect
  besides the state.
\<close>

record ('r, 'd) app_state =
  query :: jsstring
  results :: "'r list"
  loading :: bool
  selectedDoc :: "'d option"
  showDocument :: bool
  totalResults :: int
  alerts :: "jsstring list"

text \<open>The body that \<open>searchAPI\<close> posts; \<open>alpha\<close> is the constant 0.6 of api.ts.\<close>

record search_request =
  rq_query :: jsstring
  rq_limit :: nat

text \<open>\<open>SearchResponse\<close>. The handler guards every field with \<open>||\<close>, so each may be
  missing.\<close>

record 'r search_response =
  rs_results :: "'r list option"
  rs_total :: "int option"
  rs_query :: "jsstring option"

text \<open>What the \<open>catch\<close> block reads of the thrown error: \<open>error.response?.status\<close>
  and \<open>error.message\<close>.\<close>

record api_error =
  status :: "int option"
  message :: "jsstring option"

definition initial_app :: "('r, 'd) app_state" where
  "initial_app =
     \<lparr>query = [], results = [], loading = False, selectedDoc = None,
      showDocument = False, totalResults = 0, alerts = []\<rparr>"

text \<open>\<open>handleSearch\<close> up to its \<open>await\<close>: the state it leaves and the request it
  issues, if any.\<close>

definition handleSearch_begin ::
  "('r, 'd) app_state \<Rightarrow> jsstring \<Rightarrow> ('r, 'd) app_state \<times> search_request option" where
  "handleSearch_begin s searchQuery =
     (if trim searchQuery = [] then
        (s\<lparr>results := [], totalResults := 0, query := []\<rparr>, None)
      else
        (s\<lparr>loading := True, query := trim searchQuery\<rparr>,
         Some \<lparr>rq_query = trim searchQuery, rq_limit = 20\<rparr>))"

definition NOT_READY_MESSAGE :: jsstring where
  "NOT_READY_MESSAGE =
     js ''Search engine is not ready. Please check if the backend server is running and initialized.''"

definition NOT_FOUND_MESSAGE :: jsstring where
  "NOT_FOUND_MESSAGE =
     js ''Backend API not found. Please ensure the backend server is running on port 8000.''"

text \<open>The template \<open>`Search failed: ${error.message || 'Unknown error'}`\<close>; an empty
  message is falsy.\<close>

definition search_failed_message :: "jsstring option \<Rightarrow> jsstring" where
  "search_failed_message m =
     js ''Search failed: '' @
       (case m of None \<Rightarrow> js ''Unknown error''
        | Some t \<Rightarrow> if t = [] then js ''Unknown error'' else t)"

definition search_error_message :: "api_error \<Rightarrow> jsstring" where
  "search_error_message e =
     (if status e = Some 503 then NOT_READY_MESSAGE
      else if status e = Some 404 then NOT_FOUND_MESSAGE
      else search_failed_message (message e))"

text \<open>\<open>handleSearch\<close> from its \<open>await\<close> on: \<open>Inr\<close> is the resolved response, \<open>Inl\<close>
  the rejection; the \<open>finally\<close> block ends both.\<close>

definition handleSearch_resume ::
  "('r, 'd) app_state \<Rightarrow> jsstring \<Rightarrow> api_error + 'r search_response \<Rightarrow> ('r, 'd) app_state" where
  "handleSearch_resume s searchQuery outcome =
     (case outcome of
        Inr response \<Rightarrow>
          s\<lparr>results := (case rs_results response of None \<Rightarrow> [] | Some rs \<Rightarrow> rs),
            totalResults := (case rs_total response of None \<Rightarrow> 0 | Some n \<Rightarrow> n),
            query := (case rs_query response of
                        None \<Rightarrow> trim searchQuery
                      | Some q \<Rightarrow> if q = [] then trim searchQuery else q),
            loading := False\<rparr>
      | Inl error \<Rightarrow>
          s\<lparr>results := [], totalResults := 0,
            alerts := alerts s @ [search_error_message error],
            loading := False\<rparr>)"

text \<open>One whole execution of \<open>handleSearch\<close>, with the backend as the function that
  answers the request.\<close>

definition handleSearch ::
  "(search_request \<Rightarrow> api_error + 'r search_response) \<Rightarrow> ('r, 'd) app_state \<Rightarrow> jsstring
     \<Rightarrow> ('r, 'd) app_state" where
  "handleSearch backend s searchQuery =
     (case handleSearch_begin s searchQuery of
        (s', None) \<Rightarrow> s'
      | (s', Some rq) \<Rightarrow> handleSearch_resume s' searchQuery (backend rq))"

definition handleSelectDocument_begin :: "('r, 'd) app_state \<Rightarrow> jsstring \<Rightarrow> ('r, 'd) app_state \<times> jsstring" where
  "handleSelectDocument_begin s docId = (s\<lparr>loading := True\<rparr>, docId)"

definition LOAD_ERROR_MESSAGE :: jsstring where
  "LOAD_ERROR_MESSAGE = js ''Error loading document. Please try again.''"

definition handleSelectDocument_resume ::
  "('r, 'd) app_state \<Rightarrow> api_error + 'd \<Rightarrow> ('r, 'd) app_state" where
  "handleSelectDocument_resume s outcome =
     (case outcome of
        Inr doc \<Rightarrow> s\<lparr>selectedDoc := Some doc, showDocument := True, loading := False\<rparr>
      | Inl error \<Rightarrow> s\<lparr>alerts := alerts s @ [LOAD_ERROR_MESSAGE], loading := False\<rparr>)"

definition handleSelectDocument ::
  "(jsstring \<Rightarrow> api_error + 'd) \<Rightarrow> ('r, 'd) app_state \<Rightarrow> jsstring \<Rightarrow> ('r, 'd) app_state" where
  "handleSelectDocument backend s docId =
     (case handleSelectDocument_begin s docId of
        (s', d) \<Rightarrow> handleSelectDocument_resume s' (backend d))"

definition handleBackToResults :: "('r, 'd) app_state \<Rightarrow> ('r, 'd) app_state" where
  "handleBackToResults s = s\<lparr>showDocument := False, selectedDoc := None\<rparr>"

text \<open>Which panel the \<open>return\<close> of \<open>App\<close> renders:
  \<open>showDocument && selectedDoc ? <DocumentViewer/> : <SearchResults/>\<close>.\<close>

datatype view = DocumentMode | ResultsMode

definition active_view :: "('r, 'd) app_state \<Rightarrow> view" where
  "active_view s = (if showDocument s \<and> selectedDoc s \<noteq> None then DocumentMode else ResultsMode)"

section \<open>Suggestion controller (SearchBar.tsx)\<close>

text \<open>
  The component state of \<open>SearchBar\<close>. \<open>debounceTimer\<close> is the pending timeout behind
  \<open>debounceTimerRef\<close>, with the \<open>query\<close> its closure captured; \<open>None\<close> when no timeout
  is pending. \<open>inflight\<close> holds the prefixes of the \<open>onAutocomplete\<close> calls that have not
  returned yet, and \<open>autocompleteCalls\<close> logs every call with its limit.
\<close>

record searchbar_state =
  query_sb :: jsstring
  suggestions :: "jsstring list"
  showSuggestions :: bool
  isLoadingSuggestions :: bool
  debounceTimer :: "jsstring option"
  inflight :: "jsstring list"
  autocompleteCalls :: "(jsstring \<times> nat) list"
  searches :: "jsstring list"

text \<open>The second \<open>useEffect\<close>, run after a render in which \<open>query\<close> has changed (the
  cleanup of the previous run and the first statement both clear the pending timeout).\<close>

definition debounce_effect :: "searchbar_state \<Rightarrow> searchbar_state" where
  "debounce_effect s =
     (let s1 = s\<lparr>debounceTimer := None\<rparr>
      in if length (trim (query_sb s1)) < 2
         then s1\<lparr>suggestions := [], showSuggestions := False\<rparr>
         else s1\<lparr>isLoadingSuggestions := True, debounceTimer := Some (query_sb s1)\<rparr>)"

text \<open>Mounting: \<open>useState(initialQuery)\<close> and the first run of the effect.\<close>

definition mount :: "jsstring \<Rightarrow> searchbar_state" where
  "mount initialQuery =
     debounce_effect
       \<lparr>query_sb = initialQuery, suggestions = [], showSuggestions = False,
        isLoadingSuggestions = False, debounceTimer = None, inflight = [],
        autocompleteCalls = [], searches = []\<rparr>"

text \<open>
  The events of the component: the input changes (\<open>handleInputChange\<close>), the pending
  timeout fires, the \<open>k\<close>-th call in flight returns (\<open>Some\<close> suggestions, or \<open>None\<close> when
  the promise rejects), the form is submitted, a suggestion is clicked, the mouse goes
  down outside the component.
\<close>

datatype sb_event =
    Change jsstring
  | TimerFires
  | AutocompleteReturns nat "jsstring list option"
  | Submit
  | SuggestionClick jsstring
  | ClickOutside

text \<open>Setting \<open>query\<close> to the value it has does not render again, so the effect runs
  only when the value differs.\<close>

fun step :: "searchbar_state \<Rightarrow> sb_event \<Rightarrow> searchbar_state" where
  "step s (Change v) =
     (if v = query_sb s then s else debounce_effect (s\<lparr>query_sb := v\<rparr>))"
| "step s TimerFires =
     (case debounceTimer s of
        None \<Rightarrow> s
      | Some q \<Rightarrow>
          s\<lparr>debounceTimer := None,
            autocompleteCalls := autocompleteCalls s @ [(trim q, 8)],
            inflight := inflight s @ [trim q]\<rparr>)"
| "step s (AutocompleteReturns k outcome) =
     (if k < length (inflight s) then
        (let s1 = s\<lparr>inflight := take k (inflight s) @ drop (Suc k) (inflight s)\<rparr>
         in case outcome of
              Some rs \<Rightarrow>
                s1\<lparr>suggestions := rs, showSuggestions := True, isLoadingSuggestions := False\<rparr>
            | None \<Rightarrow> s1\<lparr>suggestions := [], isLoadingSuggestions := False\<rparr>)
      else s)"
| "step s Submit =
     s\<lparr>showSuggestions := False, searches := searches s @ [trim (query_sb s)]\<rparr>"
| "step s (SuggestionClick sg) =
     (let s1 = s\<lparr>query_sb := sg, showSuggestions := False, searches := searches s @ [sg]\<rparr>
      in if sg = query_sb s then s1 else debounce_effect s1)"
| "step s ClickOutside = s\<lparr>showSuggestions := False\<rparr>"

definition run :: "searchbar_state \<Rightarrow> sb_event list \<Rightarrow> searchbar_state" where
  "run s evs = foldl step s evs"

section \<open>The decoding as the specification words it\<close>

text \<open>
  The markers of a body are the matches of the section pattern, in the order the first
  pass finds them. For each marker: a Heading with its name if the name is not empty,
  then a Paragraph with the trimmed text between the end of this marker and the start of
  the next one (the end of the body after the last one) if that is not empty. In front of
  all of them, the trimmed text before the first marker, if not empty.
\<close>

definition paragraph_of :: "jsstring \<Rightarrow> segment list" where
  "paragraph_of t = (if trim t \<noteq> [] then [Paragraph (trim t)] else [])"

definition heading_of :: "section_marker \<Rightarrow> segment list" where
  "heading_of m = (if name m \<noteq> [] then [Heading (name m)] else [])"

text \<open>The text that follows marker \<open>m\<close>, up to the marker after it (the head of
  \<open>ms\<close>) or to the end of the body.\<close>

definition text_after :: "jsstring \<Rightarrow> section_marker \<Rightarrow> section_marker list \<Rightarrow> jsstring" where
  "text_after body m ms =
     substring body (endIndex m) (case ms of [] \<Rightarrow> length body | m' # _ \<Rightarrow> startIndex m')"

fun marker_segments :: "jsstring \<Rightarrow> section_marker list \<Rightarrow> segment list" where
  "marker_segments body [] = []"
| "marker_segments body (m # ms) =
     heading_of m @ paragraph_of (text_after body m ms) @ marker_segments body ms"

definition spec_decode :: "jsstring \<Rightarrow> segment list" where
  "spec_decode body =
     (let ms = first_pass body 0
      in paragraph_of (substring body 0 (startIndex (hd ms))) @ marker_segments body ms)"

text \<open>
  What a body is made of. \<open>raw_name\<close> is the text between the two delimiters of a
  marker, untrimmed. \<open>with_delimiters\<close> writes the markers and the text after each one
  back in full; \<open>without_delimiters\<close> leaves the delimiters out and keeps the rest.
  \<open>non_ws\<close> deletes the white space of a string.
\<close>

definition non_ws :: "jsstring \<Rightarrow> jsstring" where
  "non_ws s = filter (\<lambda>c. \<not> isWhiteSpace c) s"

definition raw_name :: "jsstring \<Rightarrow> section_marker \<Rightarrow> jsstring" where
  "raw_name body m =
     substring body (startIndex m + length SECTION_START) (endIndex m - length SECTION_END)"

fun with_delimiters :: "jsstring \<Rightarrow> section_marker list \<Rightarrow> jsstring" where
  "with_delimiters body [] = []"
| "with_delimiters body (m # ms) =
     SECTION_START @ raw_name body m @ SECTION_END @ text_after body m ms
     @ with_delimiters body ms"

fun without_delimiters :: "jsstring \<Rightarrow> section_marker list \<Rightarrow> jsstring" where
  "without_delimiters body [] = []"
| "without_delimiters body (m # ms) =
     raw_name body m @ text_after body m ms @ without_delimiters body ms"

text \<open>What decoding keeps of a body with markers: the text before the first marker,
  then each raw name and each text run, every one of them trimmed at both ends and
  otherwise unchanged, in their order.\<close>

fun trimmed_runs :: "jsstring \<Rightarrow> section_marker list \<Rightarrow> jsstring" where
  "trimmed_runs body [] = []"
| "trimmed_runs body (m # ms) =
     trim (raw_name body m) @ trim (text_after body m ms) @ trimmed_runs body ms"

definition kept_text :: "jsstring \<Rightarrow> jsstring" where
  "kept_text body =
     trim (substring body 0 (startIndex (hd (first_pass body 0))))
     @ trimmed_runs body (first_pass body 0)"

section \<open>Auxiliary facts\<close>

lemma set_trim: "set (trim s) \<subseteq> set s"
  by (auto simp: trim_def dest!: set_dropWhileD)

lemma trim_blank: "trim (js ''   '') = []"
  by (simp add: trim_def js_def isWhiteSpace_def)

lemma match_here_includes:
  "match_here (drop i body) = Some r \<Longrightarrow> includes_js body SECTION_START"
proof (induction body arbitrary: i)
  case Nil
  then show ?case by (auto simp: match_here_def SECTION_START_def js_def split: if_splits)
next
  case (Cons c cs)
  show ?case
  proof (cases i)
    case 0
    with Cons.prems show ?thesis by (auto simp: match_here_def split: if_splits)
  next
    case (Suc j)
    with Cons show ?thesis by auto
  qed
qed

lemma exec_includes:
  "exec body i = Some r \<Longrightarrow> includes_js body SECTION_START"
  using exec_bounds [of body i "fst r" "fst (snd r)" "snd (snd r)"] match_here_includes
  by (cases r) auto

lemma first_pass_no_include:
  "\<not> includes_js body SECTION_START \<Longrightarrow> first_pass body i = []"
  using exec_includes [of body i]
  by (cases "exec body i") (auto simp: first_pass.simps [of body i])

lemma second_pass_Nil: "second_pass body [] i parts = parts"
  by (simp add: second_pass.simps)

lemma collapse_ws_chars: "c \<in> set (collapse_ws s) \<Longrightarrow> c = 0x20 \<or> \<not> isWhiteSpace c"
proof (induction s rule: collapse_ws.induct)
  case 1
  then show ?case by simp
next
  case (2 c' cs)
  then show ?case by (auto split: if_splits)
qed

lemma second_pass_marker_segments:
  "i \<le> length ms \<Longrightarrow> second_pass body ms i parts = parts @ marker_segments body (drop i ms)"
proof (induction body ms i parts rule: second_pass.induct)
  case (1 body ms i parts)
  show ?case
  proof (cases "i < length ms")
    case False
    then show ?thesis by (subst second_pass.simps) simp
  next
    case True
    then have d: "drop i ms = ms ! i # drop (Suc i) ms"
      by (simp add: Cons_nth_drop_Suc)
    have nxt: "(case drop (Suc i) ms of [] \<Rightarrow> length body | m' # _ \<Rightarrow> startIndex m')
               = (if Suc i < length ms then startIndex (ms ! Suc i) else length body)"
    proof (cases "Suc i < length ms")
      case True
      then have "drop (Suc i) ms = ms ! Suc i # drop (Suc (Suc i)) ms"
        by (simp add: Cons_nth_drop_Suc)
      with True show ?thesis by simp
    next
      case False
      then show ?thesis by simp
    qed
    from True have le: "Suc i \<le> length ms" by simp
    show ?thesis
      apply (subst second_pass.simps)
      apply (simp only: True if_True Let_def)
      apply (subst "1.IH" [OF True refl refl refl refl refl refl le])
      apply (simp add: d nxt heading_of_def paragraph_of_def text_after_def)
      done
  qed
qed

lemma first_pass_nonempty_includes:
  "first_pass body i \<noteq> [] \<Longrightarrow> includes_js body SECTION_START \<and> body \<noteq> []"
proof -
  assume a: "first_pass body i \<noteq> []"
  then have inc: "includes_js body SECTION_START"
    using first_pass_no_include by blast
  moreover have "\<not> includes_js [] SECTION_START"
    by (simp add: SECTION_START_def js_def)
  ultimately show ?thesis by auto
qed

lemma substring_0_0: "substring body 0 0 = []"
  by (simp add: substring_def)

lemma trim_Nil: "trim [] = []"
  by (simp add: trim_def)

subsection \<open>The section pattern\<close>

lemma match_here_Nil: "match_here [] = None"
  by (simp add: match_here_def SECTION_START_def js_def)

lemma lazy_capture_prefix:
  "lazy_capture cs = Some (cap, n) \<Longrightarrow> prefix (cap @ SECTION_END) cs"
  by (induction cs arbitrary: cap n) (auto split: if_splits option.splits)

lemma lazy_capture_first_end:
  "lazy_capture cs = Some (cap, n) \<Longrightarrow> k < length cap \<Longrightarrow> \<not> prefix SECTION_END (drop k cs)"
proof (induction cs arbitrary: cap n k)
  case Nil
  then show ?case by (auto split: if_splits)
next
  case (Cons c cs)
  show ?case
  proof (cases "prefix SECTION_END (c # cs)")
    case True
    with Cons.prems show ?thesis by simp
  next
    case False
    with Cons.prems obtain cap' n' where
      r: "lazy_capture cs = Some (cap', n')" and c: "cap = c # cap'"
      by (auto split: if_splits option.splits)
    show ?thesis
    proof (cases k)
      case 0
      with False show ?thesis by simp
    next
      case (Suc k')
      with Cons.prems c have "k' < length cap'" by simp
      from Cons.IH [OF r this] Suc show ?thesis by simp
    qed
  qed
qed

lemma prefix_append_long:
  assumes "length xs \<le> length ys"
  shows "prefix xs (ys @ zs) \<longleftrightarrow> prefix xs ys"
proof
  assume "prefix xs (ys @ zs)"
  then obtain ws where "ys @ zs = xs @ ws" by (auto simp: prefix_def)
  then have "take (length xs) (ys @ zs) = xs" by simp
  with assms have "xs = take (length xs) ys" by simp
  then show "prefix xs ys" by (metis take_is_prefix)
next
  assume "prefix xs ys"
  then show "prefix xs (ys @ zs)" by (rule prefix_prefix)
qed

lemma lazy_capture_append:
  "lazy_capture cs = Some r \<Longrightarrow> lazy_capture (cs @ ys) = Some r"
proof (induction cs arbitrary: r)
  case Nil
  then show ?case by (auto simp: SECTION_END_def js_def split: if_splits)
next
  case (Cons c cs)
  show ?case
  proof (cases "prefix SECTION_END (c # cs)")
    case True
    then have "prefix SECTION_END ((c # cs) @ ys)" by (rule prefix_prefix)
    with True Cons.prems show ?thesis by simp
  next
    case False
    with Cons.prems obtain cap' n' where
      r: "lazy_capture cs = Some (cap', n')" and nl: "\<not> isLineTerminator c"
      and res: "r = (c # cap', Suc n')"
      by (auto split: if_splits option.splits)
    from lazy_capture_bounds [OF r] have "length SECTION_END \<le> length (c # cs)" by simp
    with False have "\<not> prefix SECTION_END ((c # cs) @ ys)"
      using prefix_append_long [of SECTION_END "c # cs" ys] by blast
    with Cons.IH [OF r] nl res show ?thesis by simp
  qed
qed

lemma match_here_append:
  assumes "match_here cs = Some r"
  shows "match_here (cs @ ys) = Some r"
proof -
  obtain cap n where r: "r = (cap, n)" by (cases r)
  from assms r have p: "prefix SECTION_START cs"
    using match_here_bounds(3) by blast
  then have l: "length SECTION_START \<le> length cs" by (rule prefix_length_le)
  from assms p obtain r' where lc: "lazy_capture (drop (length SECTION_START) cs) = Some r'"
    by (auto simp: match_here_def split: option.splits)
  from lazy_capture_append [OF lc, of ys] l
  have "lazy_capture (drop (length SECTION_START) (cs @ ys)) = Some r'" by simp
  moreover from p have "prefix SECTION_START (cs @ ys)" by (rule prefix_prefix)
  ultimately show ?thesis using assms p lc by (simp add: match_here_def)
qed

lemma match_here_take:
  assumes "match_here cs = Some (cap, n)"
  shows "take n cs = SECTION_START @ cap @ SECTION_END"
proof -
  from assms have p: "prefix SECTION_START cs" by (rule match_here_bounds(3))
  then obtain rest where cs: "cs = SECTION_START @ rest" by (auto simp: prefix_def)
  from assms p cs obtain m where
    lc: "lazy_capture rest = Some (cap, m)" and n: "n = length SECTION_START + m"
    by (auto simp: match_here_def split: option.splits)
  from lazy_capture_prefix [OF lc] obtain tl where rest: "rest = (cap @ SECTION_END) @ tl"
    by (auto simp: prefix_def)
  from lazy_capture_bounds [OF lc] have m: "m = length cap + length SECTION_END" by simp
  show ?thesis by (simp add: cs rest n m)
qed

lemma exec_leftmost:
  "exec body i = Some (idx, cap, e) \<Longrightarrow> i \<le> j \<Longrightarrow> j < idx \<Longrightarrow> match_here (drop j body) = None"
proof (induction body i rule: exec.induct)
  case (1 body i)
  from "1.prems"(1) have le: "\<not> length body < i"
    by (subst (asm) exec.simps) (simp split: if_splits)
  show ?case
  proof (cases "match_here (drop i body)")
    case None
    with le "1.prems"(1) have ex: "exec body (Suc i) = Some (idx, cap, e)"
      by (subst (asm) exec.simps) simp
    show ?thesis
    proof (cases "j = i")
      case True
      with None show ?thesis by simp
    next
      case False
      with "1.prems" have "Suc i \<le> j" by simp
      from "1.IH" [OF le None ex this "1.prems"(3)] show ?thesis .
    qed
  next
    case (Some r)
    with le "1.prems"(1) have "idx = i"
      by (subst (asm) exec.simps) (auto split: prod.splits)
    with "1.prems" show ?thesis by simp
  qed
qed

lemma exec_None_no_match:
  "exec body i = None \<Longrightarrow> i \<le> j \<Longrightarrow> match_here (drop j body) = None"
proof (induction body i rule: exec.induct)
  case (1 body i)
  show ?case
  proof (cases "length body < i")
    case True
    with "1.prems" show ?thesis by (simp add: match_here_Nil)
  next
    case False
    with "1.prems"(1) have n: "match_here (drop i body) = None"
      by (subst (asm) exec.simps) (auto split: option.splits)
    with False "1.prems"(1) have ex: "exec body (Suc i) = None"
      by (subst (asm) exec.simps) simp
    show ?thesis
    proof (cases "j = i")
      case True
      with n show ?thesis by simp
    next
      case False
      with "1.prems" have "Suc i \<le> j" by simp
      from "1.IH" [OF \<open>\<not> length body < i\<close> n ex this] show ?thesis .
    qed
  qed
qed

lemma no_match_exec_None:
  "(\<And>j. match_here (drop j body) = None) \<Longrightarrow> exec body i = None"
proof (induction body i rule: exec.induct)
  case (1 body i)
  show ?case
  proof (cases "length body < i")
    case True
    then show ?thesis by (subst exec.simps) simp
  next
    case False
    from "1.IH" [OF False "1.prems" "1.prems"] "1.prems" [of i] False
    show ?thesis by (subst exec.simps) simp
  qed
qed

lemma trim_decomp: "\<exists>a b. s = a @ trim s @ b"
proof -
  let ?d = "dropWhile isWhiteSpace s"
  have "s = takeWhile isWhiteSpace s @ ?d" by simp
  moreover have "?d = trim s @ rev (takeWhile isWhiteSpace (rev ?d))"
    unfolding trim_def by (metis rev_append rev_rev_ident takeWhile_dropWhile_id)
  ultimately show ?thesis by metis
qed

lemma no_match_middle:
  assumes "\<And>j. match_here (drop j (xs @ ys @ zs)) = None"
  shows "match_here (drop j ys) = None"
proof (cases "match_here (drop j ys)")
  case None
  then show ?thesis .
next
  case (Some r)
  then have j: "j \<le> length ys"
    by (cases "j \<le> length ys") (auto simp: match_here_Nil)
  from match_here_append [OF Some, of zs] j
  have "match_here (drop (length xs + j) (xs @ ys @ zs)) = Some r" by simp
  with assms [of "length xs + j"] show ?thesis by simp
qed

lemma no_match_trim:
  assumes "\<And>j. match_here (drop j s) = None"
  shows "match_here (drop j (trim s)) = None"
proof -
  from trim_decomp [of s] obtain a b where s: "s = a @ trim s @ b" by blast
  have "\<And>j. match_here (drop j (a @ trim s @ b)) = None"
    using assms s by metis
  then show ?thesis by (rule no_match_middle)
qed

lemma substring_to_end: "substring body i (length body) = drop i body"
  by (auto simp: substring_def Let_def min_def max_def)

lemma substring_slice:
  "i \<le> k \<Longrightarrow> k \<le> length body \<Longrightarrow> substring body i k = take (k - i) (drop i body)"
  by (auto simp: substring_def Let_def min_def max_def)

lemma drop_split:
  assumes "i \<le> k" and "k \<le> length body"
  shows "drop i body = substring body i k @ drop k body"
proof -
  have "drop i body = take (k - i) (drop i body) @ drop (k - i) (drop i body)"
    by (rule append_take_drop_id [symmetric])
  also have "drop (k - i) (drop i body) = drop k body"
    using assms by simp
  finally show ?thesis using assms by (simp add: substring_slice)
qed

lemma slice_between:
  assumes "exec body i = Some (idx, cap, e)"
  shows "match_here (drop j (substring body i idx)) = None"
proof -
  from exec_bounds [OF assms] have b: "i \<le> idx" "idx \<le> length body" by auto
  have d: "drop i body = substring body i idx @ drop idx body"
    by (rule drop_split [OF b])
  have len: "length (substring body i idx) = idx - i"
    using b by (simp add: substring_slice)
  show ?thesis
  proof (cases "match_here (drop j (substring body i idx))")
    case None
    then show ?thesis .
  next
    case (Some r)
    then have j: "j < idx - i"
      using len by (cases "j < idx - i") (auto simp: match_here_Nil)
    from match_here_append [OF Some, of "drop idx body"] j len
    have "match_here (drop j (drop i body)) = Some r"
      by (simp add: d)
    then have "match_here (drop (i + j) body) = Some r" by (simp add: add.commute)
    moreover from j have "i \<le> i + j" "i + j < idx" by auto
    ultimately show ?thesis using exec_leftmost [OF assms, of "i + j"] by simp
  qed
qed

lemma slice_last:
  assumes "exec body i = None"
  shows "match_here (drop j (substring body i (length body))) = None"
  using exec_None_no_match [OF assms, of "i + j"]
  by (simp add: substring_to_end add.commute)

lemma capture_clean:
  assumes "lazy_capture cs = Some (cap, n)"
  shows "match_here (drop j cap) = None"
proof (cases "match_here (drop j cap)")
  case None
  then show ?thesis .
next
  case (Some r)
  obtain c2 n2 where r: "r = (c2, n2)" by (cases r)
  from Some r have t: "take n2 (drop j cap) = SECTION_START @ c2 @ SECTION_END"
    by (simp add: match_here_take)
  from Some r match_here_bounds(1,2) [of "drop j cap" c2 n2]
  have n2: "n2 \<le> length cap - j" "n2 = 32 + length c2" by auto
  let ?k = "j + length SECTION_START + length c2"
  have k: "?k < length cap" using n2 by (simp add: SECTION_START_length)
  have "drop (length SECTION_START + length c2) (take n2 (drop j cap)) = SECTION_END"
    by (simp add: t)
  then have "take (n2 - (length SECTION_START + length c2)) (drop ?k cap) = SECTION_END"
    by (simp add: drop_take add.commute add.left_commute)
  then have "prefix SECTION_END (drop ?k cap)"
    by (metis take_is_prefix)
  moreover from lazy_capture_prefix [OF assms] have "prefix cap cs"
    by (auto simp: prefix_def)
  then obtain tl where "cs = cap @ tl" by (auto simp: prefix_def)
  then have "drop ?k cs = drop ?k cap @ tl" using k by simp
  ultimately have "prefix SECTION_END (drop ?k cs)" by (simp add: prefix_prefix)
  with lazy_capture_first_end [OF assms k] show ?thesis by simp
qed

subsection \<open>Decoding again, and what decoding keeps\<close>

lemma decode_plain:
  "body \<noteq> [] \<Longrightarrow> \<not> includes_js body SECTION_START \<or> first_pass body 0 = [] \<Longrightarrow>
     formatTextWithSections (Some body) = [Paragraph body]"
  by (auto simp: formatTextWithSections_def second_pass_Nil)

lemma decode_clean:
  assumes "p \<noteq> []" and "\<And>j. match_here (drop j p) = None"
  shows "formatTextWithSections (Some p) = [Paragraph p]"
proof -
  from assms(2) have "exec p 0 = None" by (rule no_match_exec_None)
  then have "first_pass p 0 = []" by (subst first_pass.simps) simp
  with assms(1) show ?thesis by (simp add: decode_plain)
qed

lemma paragraph_of_fix:
  assumes "\<And>j. match_here (drop j t) = None" and "seg \<in> set (paragraph_of t)"
  shows "formatTextWithSections (Some (segment_text seg)) = [Paragraph (segment_text seg)]"
proof -
  from assms(2) have s: "seg = Paragraph (trim t)" and ne: "trim t \<noteq> []"
    by (auto simp: paragraph_of_def split: if_splits)
  from no_match_trim [of t] assms(1) have "\<And>j. match_here (drop j (trim t)) = None" by blast
  from decode_clean [OF ne this] s show ?thesis by simp
qed

lemma first_pass_unfold:
  "exec body i = Some (idx, cap, e) \<Longrightarrow>
     first_pass body i = \<lparr>name = trim cap, startIndex = idx, endIndex = e\<rparr> # first_pass body e"
  by (subst first_pass.simps) simp

lemma first_pass_None: "exec body i = None \<Longrightarrow> first_pass body i = []"
  by (subst first_pass.simps) simp

lemma exec_capture:
  assumes "exec body i = Some (idx, cap, e)"
  shows "\<exists>cs n. lazy_capture cs = Some (cap, n)"
proof -
  from exec_bounds [OF assms] have "match_here (drop idx body) = Some (cap, e - idx)" by simp
  then show ?thesis by (auto simp: match_here_def split: if_splits option.splits)
qed

lemma text_after_first_pass_clean:
  "match_here (drop j (text_after body \<lparr>name = nm, startIndex = idx, endIndex = e\<rparr> (first_pass body e))) = None"
proof (cases "exec body e")
  case None
  then show ?thesis
    by (simp add: first_pass_None text_after_def slice_last)
next
  case (Some r)
  obtain idx' cap' e' where r: "r = (idx', cap', e')" by (cases r)
  with Some have ex: "exec body e = Some (idx', cap', e')" by simp
  from slice_between [OF ex] first_pass_unfold [OF ex]
  show ?thesis by (simp add: text_after_def)
qed

lemma marker_segments_fix:
  "seg \<in> set (marker_segments body (first_pass body i)) \<Longrightarrow>
     formatTextWithSections (Some (segment_text seg)) = [Paragraph (segment_text seg)]"
proof (induction body i rule: first_pass.induct)
  case (1 body i)
  show ?case
  proof (cases "exec body i")
    case None
    with "1.prems" show ?thesis by (simp add: first_pass_None)
  next
    case (Some r)
    obtain idx cap e where r: "r = (idx, cap, e)" by (cases r)
    with Some have ex: "exec body i = Some (idx, cap, e)" by simp
    let ?m = "\<lparr>name = trim cap, startIndex = idx, endIndex = e\<rparr>"
    from "1.prems" first_pass_unfold [OF ex]
    consider (h) "seg \<in> set (heading_of ?m)"
      | (p) "seg \<in> set (paragraph_of (text_after body ?m (first_pass body e)))"
      | (rest) "seg \<in> set (marker_segments body (first_pass body e))"
      by (auto simp: text_after_def)
    then show ?thesis
    proof cases
      case h
      then have s: "seg = Heading (trim cap)" and ne: "trim cap \<noteq> []"
        by (auto simp: heading_of_def split: if_splits)
      from exec_capture [OF ex] obtain cs n where "lazy_capture cs = Some (cap, n)" by blast
      then have "\<And>j. match_here (drop j cap) = None" by (rule capture_clean)
      then have "\<And>j. match_here (drop j (trim cap)) = None" by (rule no_match_trim)
      from decode_clean [OF ne this] s show ?thesis by simp
    next
      case p
      show ?thesis
        by (rule paragraph_of_fix [OF _ p]) (rule text_after_first_pass_clean)
    next
      case rest
      from "1.IH" [OF ex refl refl rest] show ?thesis .
    qed
  qed
qed

lemma spec_decode_fix:
  assumes "first_pass body 0 \<noteq> []" and "seg \<in> set (spec_decode body)"
  shows "formatTextWithSections (Some (segment_text seg)) = [Paragraph (segment_text seg)]"
proof -
  from assms(1) obtain idx cap e where ex: "exec body 0 = Some (idx, cap, e)"
    by (cases "exec body 0") (auto simp: first_pass_None)
  from assms(2) first_pass_unfold [OF ex]
  consider (l) "seg \<in> set (paragraph_of (substring body 0 idx))"
    | (m) "seg \<in> set (marker_segments body (first_pass body 0))"
    by (auto simp: spec_decode_def Let_def)
  then show ?thesis
  proof cases
    case l
    show ?thesis by (rule paragraph_of_fix [OF _ l]) (rule slice_between [OF ex])
  next
    case m
    then show ?thesis by (rule marker_segments_fix)
  qed
qed

lemma decode_by_spec:
  "first_pass body 0 \<noteq> [] \<Longrightarrow>
     formatTextWithSections (Some body)
       = (if spec_decode body = [] then [Paragraph body] else spec_decode body)"
proof -
  assume ne: "first_pass body 0 \<noteq> []"
  from first_pass_nonempty_includes [OF ne]
  have inc: "includes_js body SECTION_START" and b: "body \<noteq> []" by auto
  from ne have hd: "first_pass body 0 ! 0 = hd (first_pass body 0)"
    by (simp add: hd_conv_nth)
  have sp: "second_pass body (first_pass body 0) 0 [] = marker_segments body (first_pass body 0)"
    by (simp add: second_pass_marker_segments)
  show ?thesis
    using ne inc b
    by (auto simp: formatTextWithSections_def spec_decode_def Let_def sp hd paragraph_of_def
        substring_0_0 trim_Nil)
qed

lemma decode_fix:
  assumes "seg \<in> set (formatTextWithSections (Some body))"
  shows "formatTextWithSections (Some (segment_text seg)) = [Paragraph (segment_text seg)]"
proof (cases "first_pass body 0 = []")
  case True
  show ?thesis
  proof (cases "body = []")
    case True
    with assms show ?thesis by (simp add: formatTextWithSections_def)
  next
    case False
    with True have d: "formatTextWithSections (Some body) = [Paragraph body]"
      by (simp add: decode_plain)
    with assms have "seg = Paragraph body" by simp
    with d show ?thesis by simp
  qed
next
  case False
  note d = decode_by_spec [OF False]
  show ?thesis
  proof (cases "spec_decode body = []")
    case True
    with d assms have "seg = Paragraph body" by simp
    with d True show ?thesis by simp
  next
    case ne: False
    with d assms have "seg \<in> set (spec_decode body)" by simp
    from spec_decode_fix [OF False this] show ?thesis .
  qed
qed

lemma filter_dropWhile_not:
  "filter (\<lambda>c. \<not> P c) (dropWhile P xs) = filter (\<lambda>c. \<not> P c) xs"
  by (induction xs) auto

lemma non_ws_trim: "non_ws (trim s) = non_ws s"
proof -
  have "non_ws (trim s) = rev (non_ws (dropWhile isWhiteSpace (rev (dropWhile isWhiteSpace s))))"
    by (simp add: non_ws_def trim_def rev_filter)
  also have "\<dots> = rev (non_ws (rev (dropWhile isWhiteSpace s)))"
    by (simp add: non_ws_def filter_dropWhile_not)
  also have "\<dots> = non_ws (dropWhile isWhiteSpace s)"
    by (simp add: non_ws_def rev_filter)
  also have "\<dots> = non_ws s"
    by (simp add: non_ws_def filter_dropWhile_not)
  finally show ?thesis .
qed

lemma non_ws_append: "non_ws (xs @ ys) = non_ws xs @ non_ws ys"
  by (simp add: non_ws_def)

lemma exec_marker:
  assumes "exec body i = Some (idx, cap, e)"
  shows "drop idx body = SECTION_START @ cap @ SECTION_END @ drop e body"
    and "raw_name body \<lparr>name = nm, startIndex = idx, endIndex = e\<rparr> = cap"
proof -
  from exec_bounds [OF assms]
  have m: "match_here (drop idx body) = Some (cap, e - idx)"
    and e: "e = idx + 32 + length cap" and le: "e \<le> length body" by auto
  have "drop idx body = take (e - idx) (drop idx body) @ drop (e - idx) (drop idx body)"
    by (rule append_take_drop_id [symmetric])
  also have "drop (e - idx) (drop idx body) = drop e body"
    using e by (simp add: add.commute add.left_commute)
  finally show d: "drop idx body = SECTION_START @ cap @ SECTION_END @ drop e body"
    by (simp add: match_here_take [OF m])
  have "substring body (idx + 17) (e - 15) = take (length cap) (drop 17 (drop idx body))"
    using e le by (simp add: substring_slice add.commute)
  also have "\<dots> = cap" by (subst d) (simp add: SECTION_START_length)
  finally show "raw_name body \<lparr>name = nm, startIndex = idx, endIndex = e\<rparr> = cap"
    by (simp add: raw_name_def SECTION_START_length SECTION_END_length)
qed

lemma first_pass_names:
  "m \<in> set (first_pass body i) \<Longrightarrow> name m = trim (raw_name body m)"
proof (induction body i rule: first_pass.induct)
  case (1 body i)
  show ?case
  proof (cases "exec body i")
    case None
    with "1.prems" show ?thesis by (simp add: first_pass_None)
  next
    case (Some r)
    obtain idx cap e where r: "r = (idx, cap, e)" by (cases r)
    with Some have ex: "exec body i = Some (idx, cap, e)" by simp
    from "1.prems" first_pass_unfold [OF ex]
    have "m = \<lparr>name = trim cap, startIndex = idx, endIndex = e\<rparr> \<or> m \<in> set (first_pass body e)"
      by simp
    then show ?thesis
    proof
      assume "m = \<lparr>name = trim cap, startIndex = idx, endIndex = e\<rparr>"
      with exec_marker(2) [OF ex, of "trim cap"] show ?thesis by simp
    next
      assume "m \<in> set (first_pass body e)"
      from "1.IH" [OF ex refl refl this] show ?thesis .
    qed
  qed
qed

lemma first_pass_partition:
  "i \<le> length body \<Longrightarrow>
     drop i body =
       (case first_pass body i of
          [] \<Rightarrow> drop i body
        | m # ms \<Rightarrow> substring body i (startIndex m) @ with_delimiters body (m # ms))"
proof (induction body i rule: first_pass.induct)
  case (1 body i)
  show ?case
  proof (cases "exec body i")
    case None
    then show ?thesis by (simp add: first_pass_None)
  next
    case (Some r)
    obtain idx cap e where r: "r = (idx, cap, e)" by (cases r)
    with Some have ex: "exec body i = Some (idx, cap, e)" by simp
    let ?m = "\<lparr>name = trim cap, startIndex = idx, endIndex = e\<rparr>"
    from exec_bounds [OF ex] have b: "i \<le> idx" "idx \<le> length body" "e \<le> length body"
      by auto
    have tail: "drop e body
        = text_after body ?m (first_pass body e) @ with_delimiters body (first_pass body e)"
    proof (cases "first_pass body e")
      case Nil
      then show ?thesis by (simp add: text_after_def substring_to_end)
    next
      case (Cons m' ms')
      with "1.IH" [OF ex refl refl b(3)] show ?thesis by (simp add: text_after_def)
    qed
    have "drop i body = substring body i idx @ drop idx body"
      by (rule drop_split [OF b(1) b(2)])
    also have "drop idx body = SECTION_START @ cap @ SECTION_END @ drop e body"
      by (rule exec_marker(1) [OF ex])
    finally show ?thesis
      using tail by (simp add: first_pass_unfold [OF ex] exec_marker(2) [OF ex])
  qed
qed

lemma text_paragraph_of: "concat (map segment_text (paragraph_of t)) = trim t"
  by (simp add: paragraph_of_def)

lemma text_heading_of:
  "name m = trim (raw_name body m) \<Longrightarrow>
     concat (map segment_text (heading_of m)) = trim (raw_name body m)"
  by (simp add: heading_of_def)

lemma text_marker_segments:
  "\<forall>m \<in> set ms. name m = trim (raw_name body m) \<Longrightarrow>
     concat (map segment_text (marker_segments body ms)) = trimmed_runs body ms"
proof (induction ms)
  case Nil
  then show ?case by simp
next
  case (Cons m ms)
  then have n: "name m = trim (raw_name body m)" by simp
  from Cons show ?case
    by (simp add: text_heading_of [OF n] text_paragraph_of)
qed

lemma marker_segments_empty:
  "\<forall>m \<in> set ms. name m = trim (raw_name body m) \<Longrightarrow>
     marker_segments body ms = [] \<longleftrightarrow> trimmed_runs body ms = []"
  by (induction ms) (auto simp: heading_of_def paragraph_of_def)

lemma text_spec_decode:
  "concat (map segment_text (spec_decode body)) = kept_text body"
proof -
  have "\<forall>m \<in> set (first_pass body 0). name m = trim (raw_name body m)"
    using first_pass_names by blast
  then show ?thesis
    by (simp add: spec_decode_def kept_text_def Let_def text_paragraph_of text_marker_segments)
qed

lemma spec_decode_empty: "spec_decode body = [] \<longleftrightarrow> kept_text body = []"
proof -
  have "\<forall>m \<in> set (first_pass body 0). name m = trim (raw_name body m)"
    using first_pass_names by blast
  from marker_segments_empty [OF this] show ?thesis
    by (auto simp: spec_decode_def kept_text_def Let_def paragraph_of_def)
qed

lemma non_ws_trimmed_runs:
  "non_ws (trimmed_runs body ms) = non_ws (without_delimiters body ms)"
  by (induction ms) (simp_all add: non_ws_append non_ws_trim)

lemma non_ws_kept_text:
  "non_ws (kept_text body)
     = non_ws (substring body 0 (startIndex (hd (first_pass body 0)))
               @ without_delimiters body (first_pass body 0))"
  by (simp add: kept_text_def non_ws_append non_ws_trim non_ws_trimmed_runs)

subsection \<open>An invariant of the suggestion controller\<close>

text \<open>A pending timeout always belongs to the current input, whose trimmed length is
  at least 2, and every call issued so far had a prefix of at least 2 code units and the
  limit 8.\<close>

definition sb_inv :: "searchbar_state \<Rightarrow> bool" where
  "sb_inv s \<longleftrightarrow>
     (\<forall>q. debounceTimer s = Some q \<longrightarrow> q = query_sb s \<and> 2 \<le> length (trim q))
     \<and> (\<forall>c \<in> set (autocompleteCalls s). 2 \<le> length (fst c) \<and> snd c = 8)"

lemma sb_inv_effect:
  "\<forall>c \<in> set (autocompleteCalls s). 2 \<le> length (fst c) \<and> snd c = 8 \<Longrightarrow> sb_inv (debounce_effect s)"
  by (auto simp: sb_inv_def debounce_effect_def Let_def)

lemma sb_inv_mount: "sb_inv (mount iq)"
  unfolding mount_def by (rule sb_inv_effect) simp

lemma sb_inv_step: "sb_inv s \<Longrightarrow> sb_inv (step s ev)"
proof (cases ev)
  case (Change v)
  assume "sb_inv s"
  then have "\<forall>c \<in> set (autocompleteCalls (s\<lparr>query_sb := v\<rparr>)). 2 \<le> length (fst c) \<and> snd c = 8"
    by (simp add: sb_inv_def)
  from sb_inv_effect [OF this] \<open>sb_inv s\<close> Change show ?thesis by simp
next
  case TimerFires
  assume "sb_inv s"
  with TimerFires show ?thesis by (auto simp: sb_inv_def split: option.splits)
next
  case (AutocompleteReturns k outcome)
  assume "sb_inv s"
  with AutocompleteReturns show ?thesis by (auto simp: sb_inv_def Let_def split: option.splits)
next
  case Submit
  assume "sb_inv s"
  with Submit show ?thesis by (auto simp: sb_inv_def)
next
  case (SuggestionClick sg)
  assume "sb_inv s"
  then have "\<forall>c \<in> set (autocompleteCalls
      (s\<lparr>query_sb := sg, showSuggestions := False, searches := searches s @ [sg]\<rparr>)).
        2 \<le> length (fst c) \<and> snd c = 8"
    by (simp add: sb_inv_def)
  from sb_inv_effect [OF this] \<open>sb_inv s\<close> SuggestionClick show ?thesis
    by (auto simp: Let_def sb_inv_def)
next
  case ClickOutside
  assume "sb_inv s"
  with ClickOutside show ?thesis by (auto simp: sb_inv_def)
qed

lemma sb_inv_run: "sb_inv s \<Longrightarrow> sb_inv (run s evs)"
  unfolding run_def by (induction evs arbitrary: s) (simp_all add: sb_inv_step)

section \<open>The claims\<close>

text \<open>
  Claim C1, as amended. The delimiters of a marker are \<open>##SECTION_START##\<close> and
  \<open>##SECTION_END##\<close>. For every body in which the section pattern has at least one
  match, the decoder returns the sequence the specification describes (leading
  Paragraph, then per marker the Heading and the Paragraph, each left out when empty),
  unless that sequence is empty: then it returns one Paragraph holding the whole body.
  With the delimiters written out, the example of the specification decodes to
  Heading Intro, Paragraph hello, Heading Methods, Paragraph world.
\<close>

theorem decode_markers:
  "(first_pass body 0 \<noteq> [] \<longrightarrow>
      formatTextWithSections (Some body)
        = (if spec_decode body = [] then [Paragraph body] else spec_decode body))
   \<and> formatTextWithSections (Some (js ''##SECTION_START## Intro ##SECTION_END## hello ##SECTION_START## Methods ##SECTION_END## world''))
       = [Heading (js ''Intro''), Paragraph (js ''hello''), Heading (js ''Methods''), Paragraph (js ''world'')]"
proof
  show "first_pass body 0 \<noteq> [] \<longrightarrow>
      formatTextWithSections (Some body)
        = (if spec_decode body = [] then [Paragraph body] else spec_decode body)"
    by (simp add: decode_by_spec)
next
  show "formatTextWithSections (Some (js ''##SECTION_START## Intro ##SECTION_END## hello ##SECTION_START## Methods ##SECTION_END## world''))
       = [Heading (js ''Intro''), Paragraph (js ''hello''), Heading (js ''Methods''), Paragraph (js ''world'')]"
    by code_simp
qed

theorem decode_markers_witness:
  "first_pass (js ''preamble ##SECTION_START##A##SECTION_END## body'') 0 \<noteq> []
   \<and> spec_decode (js ''preamble ##SECTION_START##A##SECTION_END## body'')
       = [Paragraph (js ''preamble''), Heading (js ''A''), Paragraph (js ''body'')]
   \<and> formatTextWithSections (Some (js ''preamble ##SECTION_START##A##SECTION_END## body''))
       = [Paragraph (js ''preamble''), Heading (js ''A''), Paragraph (js ''body'')]"
proof -
  have a: "first_pass (js ''preamble ##SECTION_START##A##SECTION_END## body'') 0 \<noteq> []"
    by code_simp
  have b: "spec_decode (js ''preamble ##SECTION_START##A##SECTION_END## body'')
       = [Paragraph (js ''preamble''), Heading (js ''A''), Paragraph (js ''body'')]"
    by code_simp
  from a b decode_markers [of "js ''preamble ##SECTION_START##A##SECTION_END## body''"]
  show ?thesis by simp
qed

text \<open>Claim C1 as stated fails twice: a body written with the words \<open>START\<close> and
  \<open>END\<close> holds no marker and decodes to one Paragraph; and a body made of one marker with
  an empty name and no text decodes to one Paragraph holding the marker itself, where
  the described sequence is empty.\<close>

theorem decode_markers_counterexample:
  "formatTextWithSections (Some (js ''START Intro END hello START Methods END world''))
     = [Paragraph (js ''START Intro END hello START Methods END world'')]
   \<and> formatTextWithSections (Some (js ''START Intro END hello START Methods END world''))
     \<noteq> [Heading (js ''Intro''), Paragraph (js ''hello''), Heading (js ''Methods''), Paragraph (js ''world'')]
   \<and> first_pass (js ''##SECTION_START####SECTION_END##'') 0
     = [\<lparr>name = [], startIndex = 0, endIndex = 32\<rparr>]
   \<and> spec_decode (js ''##SECTION_START####SECTION_END##'') = []
   \<and> formatTextWithSections (Some (js ''##SECTION_START####SECTION_END##''))
     = [Paragraph (js ''##SECTION_START####SECTION_END##'')]"
  by code_simp

text \<open>
  Claim C2, as amended. The source compares no response with the current input. What it
  does: a keystroke clears the pending timeout, so when a timeout fires the call it
  issues (if any) is for the current input, trimmed, with limit 8; and once a call is in
  flight, its successful return is committed to the suggestion list and the panel is
  shown, whatever the input is by then.
\<close>

theorem response_commit:
  "(autocompleteCalls (step (run (mount initialQuery) evs) TimerFires)
      = autocompleteCalls (run (mount initialQuery) evs)
    \<or> autocompleteCalls (step (run (mount initialQuery) evs) TimerFires)
      = autocompleteCalls (run (mount initialQuery) evs)
          @ [(trim (query_sb (run (mount initialQuery) evs)), 8)])
   \<and> (k < length (inflight s) \<longrightarrow>
        suggestions (step s (AutocompleteReturns k (Some rs))) = rs
        \<and> showSuggestions (step s (AutocompleteReturns k (Some rs))))"
proof -
  have "sb_inv (run (mount initialQuery) evs)"
    by (rule sb_inv_run) (rule sb_inv_mount)
  then show ?thesis
    by (auto simp: sb_inv_def Let_def split: option.splits)
qed

theorem response_commit_witness:
  "0 < length (inflight (run (mount []) [Change (js ''co''), TimerFires]))
   \<and> suggestions (step (run (mount []) [Change (js ''co''), TimerFires])
        (AutocompleteReturns 0 (Some [js ''covid'']))) = [js ''covid'']
   \<and> autocompleteCalls (step (run (mount []) [Change (js ''co'')]) TimerFires) = [(js ''co'', 8)]"
proof -
  have a: "0 < length (inflight (run (mount []) [Change (js ''co''), TimerFires]))"
    by code_simp
  have b: "autocompleteCalls (step (run (mount []) [Change (js ''co'')]) TimerFires)
             = [(js ''co'', 8)]"
    by code_simp
  from a b response_commit [of "[]" "[Change (js ''co'')]" 0
      "run (mount []) [Change (js ''co''), TimerFires]" "[js ''covid'']"]
  show ?thesis by simp
qed

text \<open>Claim C2 as stated fails: the response to the superseded prefix \<open>ab\<close> arrives while
  the input is \<open>abc\<close> and replaces the suggestion list.\<close>

theorem stale_response_counterexample:
  "inflight (run (mount []) [Change (js ''ab''), TimerFires, Change (js ''abc'')]) = [js ''ab'']
   \<and> trim (query_sb (run (mount []) [Change (js ''ab''), TimerFires, Change (js ''abc'')]))
       = js ''abc''
   \<and> js ''ab'' \<noteq> js ''abc''
   \<and> suggestions (run (mount []) [Change (js ''ab''), TimerFires, Change (js ''abc''),
        AutocompleteReturns 0 (Some [js ''abx''])]) = [js ''abx'']
   \<and> showSuggestions (run (mount []) [Change (js ''ab''), TimerFires, Change (js ''abc''),
        AutocompleteReturns 0 (Some [js ''abx''])])"
  by code_simp

text \<open>
  Claim C3, on the code. The line feeds that the first replacement puts before a keyword
  are white space, so the second replacement turns them into a space again: the result of
  \<open>formatAbstract\<close> never holds a line feed, and an abstract with single spaces and two
  keywords comes back unchanged.
\<close>

theorem formatAbstract_no_break:
  "formatAbstract (Some (js ''Background: X. Methods: Y.'')) = js ''Background: X. Methods: Y.''
   \<and> (\<forall>a. 0x0A \<notin> set (formatAbstract a))"
proof
  show "formatAbstract (Some (js ''Background: X. Methods: Y.'')) = js ''Background: X. Methods: Y.''"
    by code_simp
  show "\<forall>a. 0x0A \<notin> set (formatAbstract a)"
  proof
    fix a
    have "0x0A \<notin> set (trim (collapse_ws t))" for t
      using collapse_ws_chars [of "0x0A" t] set_trim [of "collapse_ws t"]
      by (auto simp: isWhiteSpace_def isLineTerminator_def)
    then show "0x0A \<notin> set (formatAbstract a)"
      by (simp add: formatAbstract_def split: option.split)
  qed
qed

text \<open>
  Claim C4, as amended. Decoding is idempotent in this sense: the text of every segment
  it returns, decoded again, is one Paragraph holding that text. A body without a marker
  is returned whole. A body with markers is the text before the first marker followed,
  marker by marker, by the opening delimiter, the raw name, the closing delimiter and the
  text up to the next marker. Of these, the concatenated segment texts are exactly the
  text before the first marker, the raw names and the text runs, in their order, each
  trimmed at both ends and otherwise unchanged: only the white space at the two ends of
  a run is dropped, so every character that is not white space is kept. When nothing is
  left after trimming, the decoder returns the whole body as one Paragraph.
\<close>

theorem decode_preserves:
  "(\<forall>seg \<in> set (formatTextWithSections (Some body)).
      formatTextWithSections (Some (segment_text seg)) = [Paragraph (segment_text seg)])
   \<and> (first_pass body 0 = [] \<longrightarrow>
        concat (map segment_text (formatTextWithSections (Some body))) = body)
   \<and> (first_pass body 0 \<noteq> [] \<longrightarrow>
        body = substring body 0 (startIndex (hd (first_pass body 0)))
                 @ with_delimiters body (first_pass body 0)
        \<and> (kept_text body \<noteq> [] \<longrightarrow>
             concat (map segment_text (formatTextWithSections (Some body))) = kept_text body)
        \<and> (kept_text body = [] \<longrightarrow>
             formatTextWithSections (Some body) = [Paragraph body])
        \<and> non_ws (kept_text body)
             = non_ws (substring body 0 (startIndex (hd (first_pass body 0)))
                       @ without_delimiters body (first_pass body 0)))"
proof (intro conjI impI ballI)
  fix seg
  assume "seg \<in> set (formatTextWithSections (Some body))"
  then show "formatTextWithSections (Some (segment_text seg)) = [Paragraph (segment_text seg)]"
    by (rule decode_fix)
next
  assume "first_pass body 0 = []"
  show "concat (map segment_text (formatTextWithSections (Some body))) = body"
  proof (cases "body = []")
    case True
    then show ?thesis by (simp add: formatTextWithSections_def)
  next
    case False
    with \<open>first_pass body 0 = []\<close> show ?thesis by (simp add: decode_plain)
  qed
next
  assume ne: "first_pass body 0 \<noteq> []"
  then obtain m ms where f: "first_pass body 0 = m # ms" by (cases "first_pass body 0") auto
  from first_pass_partition [of 0 body] f
  show "body = substring body 0 (startIndex (hd (first_pass body 0)))
                 @ with_delimiters body (first_pass body 0)"
    by simp
next
  assume ne: "first_pass body 0 \<noteq> []" and k: "kept_text body \<noteq> []"
  from k have "spec_decode body \<noteq> []" by (simp add: spec_decode_empty)
  with decode_by_spec [OF ne]
  show "concat (map segment_text (formatTextWithSections (Some body))) = kept_text body"
    by (simp add: text_spec_decode)
next
  assume ne: "first_pass body 0 \<noteq> []" and k: "kept_text body = []"
  from k have "spec_decode body = []" by (simp add: spec_decode_empty)
  with decode_by_spec [OF ne]
  show "formatTextWithSections (Some body) = [Paragraph body]" by simp
next
  show "non_ws (kept_text body)
             = non_ws (substring body 0 (startIndex (hd (first_pass body 0)))
                       @ without_delimiters body (first_pass body 0))"
    by (rule non_ws_kept_text)
qed

theorem decode_preserves_witness:
  "first_pass (js ''pre ##SECTION_START## A ##SECTION_END##  x  y  '') 0 \<noteq> []
   \<and> kept_text (js ''pre ##SECTION_START## A ##SECTION_END##  x  y  '') = js ''preAx  y''
   \<and> js ''preAx  y'' \<noteq> []
   \<and> formatTextWithSections (Some (js ''pre ##SECTION_START## A ##SECTION_END##  x  y  ''))
       = [Paragraph (js ''pre''), Heading (js ''A''), Paragraph (js ''x  y'')]
   \<and> formatTextWithSections (Some (js ''x  y'')) = [Paragraph (js ''x  y'')]
   \<and> formatTextWithSections (Some (js ''A'')) = [Paragraph (js ''A'')]
   \<and> concat (map segment_text
         [Paragraph (js ''pre''), Heading (js ''A''), Paragraph (js ''x  y'')])
       = js ''preAx  y''
   \<and> js ''pre ##SECTION_START## A ##SECTION_END##  x  y  ''
       = substring (js ''pre ##SECTION_START## A ##SECTION_END##  x  y  '') 0
           (startIndex (hd (first_pass (js ''pre ##SECTION_START## A ##SECTION_END##  x  y  '') 0)))
         @ with_delimiters (js ''pre ##SECTION_START## A ##SECTION_END##  x  y  '')
             (first_pass (js ''pre ##SECTION_START## A ##SECTION_END##  x  y  '') 0)
   \<and> kept_text (js ''##SECTION_START## ##SECTION_END##  '') = []
   \<and> formatTextWithSections (Some (js ''##SECTION_START## ##SECTION_END##  ''))
       = [Paragraph (js ''##SECTION_START## ##SECTION_END##  '')]"
proof -
  have f: "first_pass (js ''pre ##SECTION_START## A ##SECTION_END##  x  y  '') 0 \<noteq> []"
    by code_simp
  have k: "kept_text (js ''pre ##SECTION_START## A ##SECTION_END##  x  y  '') = js ''preAx  y''"
    by code_simp
  have n: "js ''preAx  y'' \<noteq> []" by (simp add: js_def)
  have d: "formatTextWithSections (Some (js ''pre ##SECTION_START## A ##SECTION_END##  x  y  ''))
       = [Paragraph (js ''pre''), Heading (js ''A''), Paragraph (js ''x  y'')]"
    by code_simp
  have f2: "first_pass (js ''##SECTION_START## ##SECTION_END##  '') 0 \<noteq> []"
    by code_simp
  have k2: "kept_text (js ''##SECTION_START## ##SECTION_END##  '') = []"
    by code_simp
  from f k n d decode_preserves [of "js ''pre ##SECTION_START## A ##SECTION_END##  x  y  ''"]
    f2 k2 decode_preserves [of "js ''##SECTION_START## ##SECTION_END##  ''"]
  show ?thesis by simp
qed

text \<open>Claim C4 as stated fails: the white space around a text run is not kept. The
  body without its delimiters is \<open>A  x  y  \<close> with its spaces; the segment texts put
  together are \<open>Ax  y\<close>, in which the former is not contained.\<close>

theorem whitespace_lost_counterexample:
  "formatTextWithSections (Some (js ''##SECTION_START##A##SECTION_END##  x  y  ''))
     = [Heading (js ''A''), Paragraph (js ''x  y'')]
   \<and> without_delimiters (js ''##SECTION_START##A##SECTION_END##  x  y  '')
        (first_pass (js ''##SECTION_START##A##SECTION_END##  x  y  '') 0)
     = js ''A  x  y  ''
   \<and> concat (map segment_text
        (formatTextWithSections (Some (js ''##SECTION_START##A##SECTION_END##  x  y  ''))))
     = js ''Ax  y''
   \<and> \<not> subseq (js ''A  x  y  '') (js ''Ax  y'')"
  by code_simp

text \<open>
  Claim C5. A search with a non-empty trimmed query whose request is rejected ends with
  an empty result list and a total of 0, and shows one message: the not-ready message
  for status 503, the not-found message for status 404, the generic message built from
  the error's own message otherwise. The three messages differ from one another.
\<close>

theorem search_failure_outcome:
  "trim searchQuery \<noteq> [] \<Longrightarrow>
   backend \<lparr>rq_query = trim searchQuery, rq_limit = 20\<rparr> = Inl err \<Longrightarrow>
     results (handleSearch backend s searchQuery) = []
     \<and> totalResults (handleSearch backend s searchQuery) = 0
     \<and> alerts (handleSearch backend s searchQuery) = alerts s @ [search_error_message err]
     \<and> (status err = Some 503 \<longrightarrow> search_error_message err = NOT_READY_MESSAGE)
     \<and> (status err = Some 404 \<longrightarrow> search_error_message err = NOT_FOUND_MESSAGE)
     \<and> (status err \<noteq> Some 503 \<and> status err \<noteq> Some 404 \<longrightarrow>
          search_error_message err = search_failed_message (message err))
     \<and> NOT_READY_MESSAGE \<noteq> NOT_FOUND_MESSAGE
     \<and> search_failed_message (message err) \<noteq> NOT_READY_MESSAGE
     \<and> search_failed_message (message err) \<noteq> NOT_FOUND_MESSAGE"
  by (simp add: handleSearch_def handleSearch_begin_def handleSearch_resume_def
      search_error_message_def NOT_READY_MESSAGE_def NOT_FOUND_MESSAGE_def
      search_failed_message_def js_def)

theorem search_failure_outcome_witness:
  "trim (js ''covid'') \<noteq> []
   \<and> alerts (handleSearch (\<lambda>rq. Inl \<lparr>status = Some 503, message = Some (js ''Request failed'')\<rparr>)
        (initial_app :: (nat, nat) app_state) (js ''covid'')) = [NOT_READY_MESSAGE]
   \<and> alerts (handleSearch (\<lambda>rq. Inl \<lparr>status = Some 404, message = Some (js ''Request failed'')\<rparr>)
        (initial_app :: (nat, nat) app_state) (js ''covid'')) = [NOT_FOUND_MESSAGE]
   \<and> alerts (handleSearch (\<lambda>rq. Inl \<lparr>status = None, message = Some (js ''Network Error'')\<rparr>)
        (initial_app :: (nat, nat) app_state) (js ''covid'')) = [js ''Search failed: Network Error'']
   \<and> results (handleSearch (\<lambda>rq. Inl \<lparr>status = Some 503, message = Some (js ''Request failed'')\<rparr>)
        (initial_app\<lparr>results := [7]\<rparr> :: (nat, nat) app_state) (js ''covid'')) = []"
proof -
  have t: "trim (js ''covid'') \<noteq> []"
    by (simp add: trim_def js_def isWhiteSpace_def isLineTerminator_def)
  have a: "alerts (initial_app :: (nat, nat) app_state) = []"
    by (simp add: initial_app_def)
  have m: "search_failed_message (Some (js ''Network Error'')) = js ''Search failed: Network Error''"
    by (simp add: search_failed_message_def js_def)
  from t a m
    search_failure_outcome [of "js ''covid''"
      "\<lambda>rq. Inl \<lparr>status = Some 503, message = Some (js ''Request failed'')\<rparr>"
      "\<lparr>status = Some 503, message = Some (js ''Request failed'')\<rparr>"
      "initial_app :: (nat, nat) app_state"]
    search_failure_outcome [of "js ''covid''"
      "\<lambda>rq. Inl \<lparr>status = Some 404, message = Some (js ''Request failed'')\<rparr>"
      "\<lparr>status = Some 404, message = Some (js ''Request failed'')\<rparr>"
      "initial_app :: (nat, nat) app_state"]
    search_failure_outcome [of "js ''covid''"
      "\<lambda>rq. Inl \<lparr>status = None, message = Some (js ''Network Error'')\<rparr>"
      "\<lparr>status = None, message = Some (js ''Network Error'')\<rparr>"
      "initial_app :: (nat, nat) app_state"]
    search_failure_outcome [of "js ''covid''"
      "\<lambda>rq. Inl \<lparr>status = Some 503, message = Some (js ''Request failed'')\<rparr>"
      "\<lparr>status = Some 503, message = Some (js ''Request failed'')\<rparr>"
      "initial_app\<lparr>results := [7]\<rparr> :: (nat, nat) app_state"]
  show ?thesis by simp
qed

text \<open>
  Claim C6, as amended. When a search request or a document request completes, by
  success or by failure, the loading flag is false; so it is after a whole search with a
  non-empty trimmed query and after a whole document open. The early return for an empty
  trimmed query does not touch the flag: it is left as it was.
\<close>

theorem loading_reset:
  "loading (handleSearch_resume s q outcome) = False
   \<and> loading (handleSelectDocument_resume s dout) = False
   \<and> loading (handleSelectDocument dbackend s docId) = False
   \<and> (trim q \<noteq> [] \<longrightarrow> loading (handleSearch backend s q) = False)
   \<and> (trim q = [] \<longrightarrow> loading (handleSearch backend s q) = loading s)"
  by (simp add: handleSearch_def handleSearch_begin_def handleSearch_resume_def
      handleSelectDocument_def handleSelectDocument_begin_def handleSelectDocument_resume_def
      split: sum.split)

theorem loading_reset_witness:
  "trim (js ''covid'') \<noteq> []
   \<and> loading (handleSearch (\<lambda>rq. Inl \<lparr>status = Some 503, message = None\<rparr>)
        (initial_app :: (nat, nat) app_state) (js ''covid'')) = False
   \<and> trim (js ''   '') = []
   \<and> loading (handleSearch (\<lambda>rq. Inl \<lparr>status = Some 503, message = None\<rparr>)
        (initial_app :: (nat, nat) app_state) (js ''   '')) = False"
proof -
  have t: "trim (js ''covid'') \<noteq> []"
    by (simp add: trim_def js_def isWhiteSpace_def isLineTerminator_def)
  have l: "loading (initial_app :: (nat, nat) app_state) = False"
    by (simp add: initial_app_def)
  from t l trim_blank
    loading_reset [of "initial_app :: (nat, nat) app_state" "js ''covid''" "Inl \<lparr>status = None, message = None\<rparr>"
      "Inl \<lparr>status = None, message = None\<rparr> :: api_error + nat" "\<lambda>d. Inl \<lparr>status = None, message = None\<rparr>"
      "[]" "\<lambda>rq. Inl \<lparr>status = Some 503, message = None\<rparr>"]
    loading_reset [of "initial_app :: (nat, nat) app_state" "js ''   ''" "Inl \<lparr>status = None, message = None\<rparr>"
      "Inl \<lparr>status = None, message = None\<rparr> :: api_error + nat" "\<lambda>d. Inl \<lparr>status = None, message = None\<rparr>"
      "[]" "\<lambda>rq. Inl \<lparr>status = Some 503, message = None\<rparr>"]
  show ?thesis by simp
qed

text \<open>Claim C6 as stated fails on the early return: a search for \<open>covid\<close> is in flight
  (the flag is true) when an empty query is submitted; that submission completes with the
  flag still true.\<close>

theorem loading_after_empty_query_counterexample:
  "loading (handleSearch (\<lambda>rq. Inr \<lparr>rs_results = None, rs_total = None, rs_query = None\<rparr>)
      (fst (handleSearch_begin (initial_app :: (nat, nat) app_state) (js ''covid''))) [])"
  by (simp add: handleSearch_def handleSearch_begin_def trim_def js_def isWhiteSpace_def
      isLineTerminator_def)

text \<open>
  Claim C7. Going back to the results drops the held document and shows the result
  panel; the result list, the total and the query are untouched, and after opening a
  document and going back they are what they were before the document was opened.
\<close>

theorem back_to_results_frame:
  "selectedDoc (handleBackToResults s) = None
   \<and> active_view (handleBackToResults s) = ResultsMode
   \<and> results (handleBackToResults s) = results s
   \<and> totalResults (handleBackToResults s) = totalResults s
   \<and> query (handleBackToResults s) = query s
   \<and> results (handleBackToResults (handleSelectDocument backend s docId)) = results s
   \<and> totalResults (handleBackToResults (handleSelectDocument backend s docId)) = totalResults s
   \<and> query (handleBackToResults (handleSelectDocument backend s docId)) = query s"
  by (simp add: handleBackToResults_def active_view_def handleSelectDocument_def
      handleSelectDocument_begin_def handleSelectDocument_resume_def split: sum.split)

text \<open>
  Claim C8. An absent or empty body decodes to no segment. A non-empty body in which the
  section pattern has no match (in particular one that does not contain the opening
  delimiter) decodes to one Paragraph holding the body itself, unchanged.
\<close>

theorem no_marker_plain:
  "formatTextWithSections None = []
   \<and> formatTextWithSections (Some []) = []
   \<and> (body \<noteq> [] \<and> (\<not> includes_js body SECTION_START \<or> first_pass body 0 = [])
        \<longrightarrow> formatTextWithSections (Some body) = [Paragraph body])"
  by (auto simp: formatTextWithSections_def second_pass_Nil)

theorem no_marker_plain_witness:
  "js ''  plain text '' \<noteq> [] \<and> \<not> includes_js (js ''  plain text '') SECTION_START
   \<and> formatTextWithSections (Some (js ''  plain text '')) = [Paragraph (js ''  plain text '')]
   \<and> js ''a ##SECTION_START## b'' \<noteq> [] \<and> first_pass (js ''a ##SECTION_START## b'') 0 = []
   \<and> formatTextWithSections (Some (js ''a ##SECTION_START## b''))
       = [Paragraph (js ''a ##SECTION_START## b'')]"
proof -
  have a: "js ''  plain text '' \<noteq> []" by (simp add: js_def)
  have b: "\<not> includes_js (js ''  plain text '') SECTION_START" by code_simp
  have c: "js ''a ##SECTION_START## b'' \<noteq> []" by (simp add: js_def)
  have d: "first_pass (js ''a ##SECTION_START## b'') 0 = []" by code_simp
  from a b c d no_marker_plain [of "js ''  plain text ''"]
    no_marker_plain [of "js ''a ##SECTION_START## b''"]
  show ?thesis by simp
qed

text \<open>
  Claim C9. Submitting a query whose trimmed value is empty empties the result list,
  sets the total to 0 and the query to the empty string, issues no request and shows no
  message.
\<close>

theorem empty_query_clears:
  "trim searchQuery = [] \<Longrightarrow>
     handleSearch_begin s searchQuery = (s\<lparr>results := [], totalResults := 0, query := []\<rparr>, None)
     \<and> results (handleSearch backend s searchQuery) = []
     \<and> totalResults (handleSearch backend s searchQuery) = 0
     \<and> query (handleSearch backend s searchQuery) = []
     \<and> alerts (handleSearch backend s searchQuery) = alerts s"
  by (simp add: handleSearch_begin_def handleSearch_def)

theorem empty_query_clears_witness:
  "trim (js ''   '') = []
   \<and> snd (handleSearch_begin
        (initial_app\<lparr>results := [1], totalResults := 57, query := js ''covid''\<rparr> :: (nat, nat) app_state)
        (js ''   '')) = None
   \<and> results (handleSearch (\<lambda>rq. Inl \<lparr>status = None, message = None\<rparr>)
        (initial_app\<lparr>results := [1], totalResults := 57, query := js ''covid''\<rparr> :: (nat, nat) app_state)
        (js ''   '')) = []"
  using empty_query_clears [of "js ''   ''"
      "initial_app\<lparr>results := [1], totalResults := 57, query := js ''covid''\<rparr> :: (nat, nat) app_state"
      "\<lambda>rq. Inl \<lparr>status = None, message = None\<rparr>"] trim_blank
  by simp

text \<open>
  Claim C10. When the input changes to a string whose trimmed length is below 2, the
  suggestion list is emptied, the panel is hidden and no call is issued, neither at once
  nor when a timeout would fire; and over every run of the component, every autocomplete
  call ever issued has a prefix of at least 2 code units.
\<close>

theorem short_input_no_request:
  "(v \<noteq> query_sb s \<and> length (trim v) < 2 \<longrightarrow>
      suggestions (step s (Change v)) = []
      \<and> \<not> showSuggestions (step s (Change v))
      \<and> autocompleteCalls (step s (Change v)) = autocompleteCalls s
      \<and> autocompleteCalls (step (step s (Change v)) TimerFires) = autocompleteCalls s)
   \<and> (\<forall>c \<in> set (autocompleteCalls (run (mount initialQuery) evs)). 2 \<le> length (fst c))"
proof -
  have "sb_inv (run (mount initialQuery) evs)"
    by (rule sb_inv_run) (rule sb_inv_mount)
  then show ?thesis
    by (auto simp: sb_inv_def debounce_effect_def)
qed

theorem short_input_no_request_witness:
  "js ''a '' \<noteq> query_sb (mount (js ''ab'')) \<and> length (trim (js ''a '')) < 2
   \<and> debounceTimer (mount (js ''ab'')) = Some (js ''ab'')
   \<and> suggestions (step (mount (js ''ab'')) (Change (js ''a ''))) = []
   \<and> autocompleteCalls (step (step (mount (js ''ab'')) (Change (js ''a ''))) TimerFires) = []
   \<and> autocompleteCalls (run (mount []) [Change (js ''a''), TimerFires, Change (js ''ab''), TimerFires])
       = [(js ''ab'', 8)]
   \<and> 2 \<le> length (fst (js ''ab'', 8 :: nat))"
proof -
  have a: "js ''a '' \<noteq> query_sb (mount (js ''ab''))" by code_simp
  have b: "length (trim (js ''a '')) < 2" by code_simp
  have c: "debounceTimer (mount (js ''ab'')) = Some (js ''ab'')" by code_simp
  have d: "autocompleteCalls (mount (js ''ab'')) = []" by code_simp
  have e: "autocompleteCalls
      (run (mount []) [Change (js ''a''), TimerFires, Change (js ''ab''), TimerFires])
       = [(js ''ab'', 8)]" by code_simp
  from a b c d e
    short_input_no_request [of "js ''a ''" "mount (js ''ab'')" "[]"
      "[Change (js ''a''), TimerFires, Change (js ''ab''), TimerFires]"]
  show ?thesis by simp
qed

end
